theory Spec2Isabelle
  imports Main "HOL-Library.Word"
begin

unbundle bit_operations_syntax

section \<open>Machine types\<close>

type_synonym u8 = "8 word"
type_synonym u16 = "16 word"
type_synonym u32 = "32 word"
type_synonym u64 = "64 word"

text \<open>
  The C++ type \<open>int\<close> is modelled as a HOL \<open>int\<close> kept in the 32-bit two's complement
  range: every arithmetic result on a score is passed through \<open>wrap32\<close>, which also
  models the conversion \<open>(int)n\<close> of a \<open>size_t\<close> (modular since C++20). Signed overflow,
  which C++ leaves undefined, is modelled as the same wrap-around. The loop counters
  \<open>r\<close>, \<open>pass\<close> and \<open>b\<close> stay below their bounds and never overflow.
\<close>

definition INT_MAX :: int where
  "INT_MAX = 2147483647"

definition wrap32 :: "int \<Rightarrow> int" where
  "wrap32 v = (v + 2147483648) mod 4294967296 - 2147483648"

section \<open>PRP16: four Feistel rounds over 8+8 bits\<close>

text \<open>The round function \<open>F(r, k, round)\<close>; the arithmetic is on \<open>uint32_t\<close>.\<close>

definition F :: "u8 \<Rightarrow> u32 \<Rightarrow> nat \<Rightarrow> u8" where
  "F r k round =
     (let x0 = (ucast r :: u32);
          x1 = x0 XOR (drop_bit (round * 8) k AND 0xFF);
          x2 = x1 * 0x45D9F3B;
          x3 = x2 XOR drop_bit 16 x2;
          x4 = x3 * 0x45D9F3B;
          x5 = x4 XOR drop_bit 16 x4
      in ucast x5)"

text \<open>The loop \<open>for (int r = 0; r < 4; ++r)\<close> of \<open>prp16\<close> on the pair \<open>(L, R)\<close>.\<close>

function feistel_loop :: "u32 \<Rightarrow> nat \<Rightarrow> u8 \<times> u8 \<Rightarrow> u8 \<times> u8" where
  "feistel_loop key r (L, R) =
     (if r < 4 then feistel_loop key (r + 1) (R, L XOR F R key r) else (L, R))"
  by pat_completeness auto
termination
  by (relation "measure (\<lambda>(key, r, LR). 4 - r)") auto

declare feistel_loop.simps [simp del]

definition prp16 :: "u16 \<Rightarrow> u32 \<Rightarrow> u16" where
  "prp16 x key =
     (let L = (ucast (drop_bit 8 x) :: u8);
          R = (ucast (x AND 0xFF) :: u8);
          (L', R') = feistel_loop key 0 (L, R)
      in push_bit 8 (ucast L' :: u16) OR (ucast R' :: u16))"

text \<open>Membership: the most significant bit of \<open>prp16 x listID\<close> is 0.\<close>

definition hasValue :: "u32 \<Rightarrow> u16 \<Rightarrow> bool" where
  "hasValue listID x = (let y = prp16 x listID in y AND 0x8000 = 0)"

section \<open>Scoring\<close>

text \<open>
  The counting loop of \<open>score_list\<close>: \<open>s += hasValue(listID, data[i]) ? 1 : 0\<close> for
  \<open>i = 0 .. n - 1\<close>, with the block as the list of its \<open>n\<close> values.
\<close>

fun count_loop :: "u32 \<Rightarrow> u16 list \<Rightarrow> int \<Rightarrow> int" where
  "count_loop listID [] s = s"
| "count_loop listID (x # xs) s =
     count_loop listID xs (wrap32 (s + (if hasValue listID x then 1 else 0)))"

definition score_list :: "u32 \<Rightarrow> u16 list \<Rightarrow> int" where
  "score_list listID data =
     (let s = count_loop listID data 0
      in max s (wrap32 (wrap32 (int (length data)) - s)))"

text \<open>
  The scorer with the sense of the membership predicate flipped: it counts the values for
  which \<open>hasValue\<close> is false. It is not part of the source; it states the score symmetry.
\<close>

fun count_loop_neg :: "u32 \<Rightarrow> u16 list \<Rightarrow> int \<Rightarrow> int" where
  "count_loop_neg listID [] s = s"
| "count_loop_neg listID (x # xs) s =
     count_loop_neg listID xs (wrap32 (s + (if \<not> hasValue listID x then 1 else 0)))"

definition score_list_neg :: "u32 \<Rightarrow> u16 list \<Rightarrow> int" where
  "score_list_neg listID data =
     (let s = count_loop_neg listID data 0
      in max s (wrap32 (wrap32 (int (length data)) - s)))"

section \<open>Search: random restarts and greedy bit-flip hillclimb\<close>

record SearchConfig =
  restarts :: int
  hillIters :: int
  tryAllBits :: bool

record SearchResult =
  bestID :: u32
  bestScore :: int

text \<open>The default member initialisers of \<open>SearchResult\<close>.\<close>

definition default_result :: SearchResult where
  "default_result = \<lparr>bestID = 0, bestScore = - 1\<rparr>"

text \<open>
  The inner loop \<open>for (int b = 0; b < 32; ++b)\<close> of one pass, on the variables
  \<open>(cur, curScore, improved)\<close>.
\<close>

function bit_loop :: "u16 list \<Rightarrow> nat \<Rightarrow> u32 \<times> int \<times> bool \<Rightarrow> u32 \<times> int \<times> bool" where
  "bit_loop block b (cur, curScore, improved) =
     (if b < 32 then
        (let cand = cur XOR push_bit b 1;
             sc = score_list cand block
         in if sc > curScore then bit_loop block (b + 1) (cand, sc, True)
            else bit_loop block (b + 1) (cur, curScore, improved))
      else (cur, curScore, improved))"
  by pat_completeness auto
termination
  by (relation "measure (\<lambda>(block, b, st). 32 - b)") auto

declare bit_loop.simps [simp del]

text \<open>
  The outer loop \<open>for (int pass = 0; pass < cfg.hillIters; ++pass)\<close> with its
  \<open>if (!improved) break\<close>.
\<close>

function pass_loop :: "u16 list \<Rightarrow> int \<Rightarrow> int \<Rightarrow> u32 \<times> int \<Rightarrow> u32 \<times> int" where
  "pass_loop block iters pass (cur, curScore) =
     (if pass < iters then
        (case bit_loop block 0 (cur, curScore, False) of
           (cur', curScore', improved) \<Rightarrow>
             if \<not> improved then (cur', curScore')
             else pass_loop block iters (pass + 1) (cur', curScore'))
      else (cur, curScore))"
  by pat_completeness auto
termination
  by (relation "measure (\<lambda>(block, iters, pass, st). nat (iters - pass))") auto

declare pass_loop.simps [simp del]

definition hillclimb :: "u16 list \<Rightarrow> SearchConfig \<Rightarrow> u32 \<Rightarrow> u32 \<times> int" where
  "hillclimb block cfg startID =
     pass_loop block (hillIters cfg) 0 (startID, score_list startID block)"

text \<open>
  The random source (\<open>std::mt19937_64\<close> with \<open>std::uniform_int_distribution<uint32_t>\<close>)
  belongs to the C++ standard library. It is taken as a parameter: a generator state
  built from the 64-bit seed, and a draw that returns a 32-bit value and the next state.
\<close>

record 's rng_model =
  seed_rng :: "u64 \<Rightarrow> 's"
  draw32 :: "'s \<Rightarrow> u32 \<times> 's"

text \<open>The update \<open>if (sc > res.bestScore) { res.bestScore = sc; res.bestID = id; }\<close>.\<close>

definition track_best :: "SearchResult \<Rightarrow> u32 \<times> int \<Rightarrow> SearchResult" where
  "track_best res p =
     (case p of (key, sc) \<Rightarrow>
        if sc > bestScore res then res\<lparr>bestScore := sc, bestID := key\<rparr> else res)"

text \<open>The loop \<open>for (int r = 0; r < cfg.restarts; ++r)\<close>.\<close>

function restart_loop ::
  "'s rng_model \<Rightarrow> u16 list \<Rightarrow> SearchConfig \<Rightarrow> int \<Rightarrow> 's \<Rightarrow> SearchResult \<Rightarrow> SearchResult" where
  "restart_loop g block cfg r rng res =
     (if r < restarts cfg then
        (case draw32 g rng of
           (start, rng') \<Rightarrow>
             restart_loop g block cfg (r + 1) rng' (track_best res (hillclimb block cfg start)))
      else res)"
  by pat_completeness auto
termination
  by (relation "measure (\<lambda>(g, block, cfg, r, rng, res). nat (restarts cfg - r))") auto

declare restart_loop.simps [simp del]

definition searchBestListID ::
  "'s rng_model \<Rightarrow> u16 list \<Rightarrow> SearchConfig \<Rightarrow> u64 \<Rightarrow> SearchResult" where
  "searchBestListID g block cfg rngSeed =
     restart_loop g block cfg 0 (seed_rng g rngSeed) default_result"

text \<open>
  The restart loop once more, as an execution relation on the loop state
  \<open>(r, rng, res)\<close>: one rule leaves the loop, the other runs one iteration.
\<close>

inductive restart_exec ::
  "'s rng_model \<Rightarrow> u16 list \<Rightarrow> SearchConfig \<Rightarrow> int \<times> 's \<times> SearchResult \<Rightarrow> SearchResult \<Rightarrow> bool"
  for g :: "'s rng_model" and block :: "u16 list" and cfg :: SearchConfig where
  exec_done: "\<not> r < restarts cfg \<Longrightarrow> restart_exec g block cfg (r, rng, res) res"
| exec_step: "r < restarts cfg \<Longrightarrow> draw32 g rng = (start, rng') \<Longrightarrow>
     restart_exec g block cfg (r + 1, rng', track_best res (hillclimb block cfg start)) out \<Longrightarrow>
     restart_exec g block cfg (r, rng, res) out"

definition search_run ::
  "'s rng_model \<Rightarrow> u16 list \<Rightarrow> SearchConfig \<Rightarrow> u64 \<Rightarrow> SearchResult \<Rightarrow> bool" where
  "search_run g block cfg rngSeed out =
     restart_exec g block cfg (0, seed_rng g rngSeed, default_result) out"



text \<open>
  A small generator to run the search on concrete inputs: the state is a counter, and a
  draw returns its low 32 bits.
\<close>

definition counter_rng :: "u64 rng_model" where
  "counter_rng = \<lparr>seed_rng = (\<lambda>s. s), draw32 = (\<lambda>s. (ucast s, s + 1))\<rparr>"

subsection \<open>The hillclimb as the specification words it\<close>

text \<open>
  One bit position: the score of the current key with that single bit flipped; the
  flipped key is adopted when its score strictly exceeds the current score.
\<close>

definition spec_try_flip :: "u16 list \<Rightarrow> u32 \<times> int \<Rightarrow> nat \<Rightarrow> u32 \<times> int" where
  "spec_try_flip block st b =
     (let flipped = flip_bit b (fst st);
          s = score_list flipped block
      in if s > snd st then (flipped, s) else st)"

text \<open>One pass: the bit positions 0..31 in order, each on the key the earlier ones left.\<close>

definition spec_pass :: "u16 list \<Rightarrow> u32 \<times> int \<Rightarrow> u32 \<times> int" where
  "spec_pass block st = foldl (spec_try_flip block) st [0..<32]"

text \<open>Up to \<open>n\<close> passes, stopping after a pass in which no flip improved the score.\<close>

fun spec_passes :: "u16 list \<Rightarrow> nat \<Rightarrow> u32 \<times> int \<Rightarrow> u32 \<times> int" where
  "spec_passes block 0 st = st"
| "spec_passes block (Suc n) st =
     (let st' = spec_pass block st
      in if snd st' > snd st then spec_passes block n st' else st')"

definition spec_hillclimb :: "u16 list \<Rightarrow> SearchConfig \<Rightarrow> u32 \<Rightarrow> u32 \<times> int" where
  "spec_hillclimb block cfg startID =
     spec_passes block (nat (hillIters cfg)) (startID, score_list startID block)"

section \<open>PRP16 is a bijection\<close>

lemma join_high:
  "(ucast (drop_bit 8 (push_bit 8 (ucast (L::u8) :: u16) OR (ucast (R::u8) :: u16))) :: u8) = L"
  by (rule bit_word_eqI) (auto simp: bit_simps dest: bit_imp_le_length)

lemma join_low: "(ucast (push_bit 8 (ucast (L::u8) :: u16) OR (ucast (R::u8) :: u16)) :: u8) = R"
  by (rule bit_word_eqI) (auto simp: bit_simps)

lemma low_mask: "(ucast ((x::u16) AND 0xFF) :: u8) = ucast x"
proof -
  have m: "(0xFF :: u16) = mask 8" by (simp add: mask_eq_exp_minus_1)
  show ?thesis
    unfolding m by (rule bit_word_eqI) (auto simp: bit_simps)
qed

lemma split_join:
  "push_bit 8 (ucast (ucast (drop_bit 8 x) :: u8) :: u16) OR ucast (ucast (x::u16) :: u8) = x"
  by (rule bit_word_eqI) (auto simp: bit_simps)

text \<open>A Feistel round keeps \<open>R\<close> and masks \<open>L\<close> with a function of \<open>R\<close>, so it can be undone.\<close>

lemma feistel_loop_inj:
  "feistel_loop key r p = feistel_loop key r q \<Longrightarrow> p = q"
proof (induction "4 - r" arbitrary: r p q)
  case 0
  then show ?case by (cases p; cases q) (simp add: feistel_loop.simps)
next
  case (Suc n)
  obtain L R where p: "p = (L, R)" by (cases p)
  obtain L' R' where q: "q = (L', R')" by (cases q)
  from Suc.hyps(2) have r: "r < 4" and n: "n = 4 - (r + 1)" by simp_all
  from Suc.prems r have "feistel_loop key (r + 1) (R, L XOR F R key r)
      = feistel_loop key (r + 1) (R', L' XOR F R' key r)"
    by (simp add: p q feistel_loop.simps)
  from Suc.hyps(1)[OF n this] have eq: "(R, L XOR F R key r) = (R', L' XOR F R' key r)" .
  then have R: "R = R'" by blast
  from eq have "L XOR F R key r = L' XOR F R' key r" by blast
  with R have "(L XOR F R key r) XOR F R key r = (L' XOR F R key r) XOR F R key r"
    by simp
  then have "L = L'" by (simp add: xor.assoc)
  with R show ?case by (simp add: p q)
qed

lemma prp16_inj: "inj (\<lambda>x. prp16 x key)"
proof (rule injI)
  fix x y assume eq: "prp16 x key = prp16 y key"
  let ?sx = "(ucast (drop_bit 8 x) :: u8, ucast x :: u8)"
  let ?sy = "(ucast (drop_bit 8 y) :: u8, ucast y :: u8)"
  obtain a b where a: "feistel_loop key 0 ?sx = (a, b)" by (cases "feistel_loop key 0 ?sx")
  obtain c d where c: "feistel_loop key 0 ?sy = (c, d)" by (cases "feistel_loop key 0 ?sy")
  from eq a c
  have j: "push_bit 8 (ucast a :: u16) OR ucast b = push_bit 8 (ucast c :: u16) OR ucast d"
    by (simp add: prp16_def low_mask)
  have "a = c"
    using arg_cong[OF j, of "\<lambda>w. (ucast (drop_bit 8 w) :: u8)"] by (simp only: join_high)
  moreover have "b = d"
    using arg_cong[OF j, of "\<lambda>w. (ucast w :: u8)"] by (simp only: join_low)
  ultimately have "feistel_loop key 0 ?sx = feistel_loop key 0 ?sy" using a c by simp
  then have "?sx = ?sy" by (rule feistel_loop_inj)
  then have h: "(ucast (drop_bit 8 x) :: u8) = ucast (drop_bit 8 y)"
    and l: "(ucast x :: u8) = ucast y"
    by simp_all
  have "x = push_bit 8 (ucast (ucast (drop_bit 8 x) :: u8) :: u16) OR ucast (ucast x :: u8)"
    by (rule split_join[symmetric])
  also have "\<dots> = push_bit 8 (ucast (ucast (drop_bit 8 y) :: u8) :: u16) OR ucast (ucast y :: u8)"
    by (simp only: h l)
  also have "\<dots> = y" by (rule split_join)
  finally show "x = y" .
qed

lemma prp16_surj: "surj (\<lambda>x. prp16 x key)"
  by (rule finite_UNIV_inj_surj) (simp_all add: prp16_inj)

text \<open>
  C1. For every 32-bit key, \<open>prp16\<close> with that key is a bijection on the 16-bit values:
  the 65536 inputs give 65536 distinct outputs.
\<close>

theorem prp16_bijection:
  "bij (\<lambda>x. prp16 x key) \<and> card (range (\<lambda>x. prp16 x key)) = 65536"
proof
  show "bij (\<lambda>x. prp16 x key)" using prp16_inj prp16_surj by (simp add: bij_def)
  show "card (range (\<lambda>x. prp16 x key)) = 65536"
    by (simp add: prp16_surj card_word)
qed

section \<open>The membership predicate splits the universe in two halves\<close>

lemma msb_zero_iff: "(y::u16) AND 0x8000 = 0 \<longleftrightarrow> \<not> bit y 15"
proof -
  have "(0x8000 :: u16) = 2 ^ 15" by simp
  then show ?thesis by (simp only: and_exp_eq_0_iff_not_bit)
qed

lemma flip_bit_twice: "flip_bit n (flip_bit n (y::u16)) = y"
  by (rule bit_word_eqI) (auto simp: bit_flip_bit_iff)

lemma card_msb_clear: "card {y::u16. \<not> bit y 15} = 32768"
proof -
  let ?A = "{y::u16. \<not> bit y 15}" and ?B = "{y::u16. bit y 15}"
  have "bij_betw (flip_bit 15) ?A ?B"
    by (rule bij_betw_byWitness[where f' = "flip_bit 15"])
       (auto simp: flip_bit_twice bit_flip_bit_iff)
  then have same: "card ?A = card ?B" by (rule bij_betw_same_card)
  have "?A \<union> ?B = UNIV" and "?A \<inter> ?B = {}" by auto
  then have "card ?A + card ?B = card (UNIV :: u16 set)"
    using card_Un_disjoint[of ?A ?B] by simp
  with same show ?thesis by (simp add: card_word)
qed

text \<open>
  C2. For every 32-bit key, exactly 32768 of the 65536 16-bit values satisfy
  \<open>hasValue\<close> with that key.
\<close>

theorem hasValue_half: "card {x. hasValue key x} = 32768"
proof -
  have "{x. hasValue key x} = (\<lambda>x. prp16 x key) -` {y. \<not> bit y 15}"
    by (auto simp: hasValue_def msb_zero_iff)
  moreover
  have "card ((\<lambda>x. prp16 x key) -` {y. \<not> bit y 15}) = card {y::u16. \<not> bit y 15}"
  proof (rule card_vimage_inj)
    show "inj (\<lambda>x. prp16 x key)" by (rule prp16_inj)
    show "{y. \<not> bit y 15} \<subseteq> range (\<lambda>x. prp16 x key)" by (simp add: prp16_surj)
  qed
  ultimately show ?thesis by (simp add: card_msb_clear)
qed

section \<open>The scorer\<close>

text \<open>Arithmetic of the 32-bit wrap-around.\<close>

lemma wrap32_id: "- 2147483648 \<le> v \<Longrightarrow> v < 2147483648 \<Longrightarrow> wrap32 v = v"
  by (simp add: wrap32_def)

lemma wrap32_mod: "wrap32 a mod 4294967296 = a mod 4294967296"
proof -
  have "((a + 2147483648) mod 4294967296 - 2147483648) mod 4294967296
      = (a + 2147483648 - 2147483648) mod 4294967296"
    by (rule mod_diff_left_eq)
  then show ?thesis by (simp add: wrap32_def)
qed

lemma wrap32_cong: "a mod 4294967296 = b mod 4294967296 \<Longrightarrow> wrap32 a = wrap32 b"
proof -
  assume "a mod 4294967296 = b mod 4294967296"
  then have "(a mod 4294967296 + 2147483648) mod 4294967296
           = (b mod 4294967296 + 2147483648) mod 4294967296" by simp
  then have "(a + 2147483648) mod 4294967296 = (b + 2147483648) mod 4294967296"
    by (simp only: mod_add_left_eq)
  then show ?thesis by (simp add: wrap32_def)
qed

lemma wrap32_add_left: "wrap32 (wrap32 a + b) = wrap32 (a + b)"
proof (rule wrap32_cong)
  have "(wrap32 a + b) mod 4294967296 = (wrap32 a mod 4294967296 + b) mod 4294967296"
    by (simp only: mod_add_left_eq)
  also have "\<dots> = (a + b) mod 4294967296"
    by (simp only: wrap32_mod mod_add_left_eq)
  finally show "(wrap32 a + b) mod 4294967296 = (a + b) mod 4294967296" .
qed

lemma wrap32_idem: "wrap32 (wrap32 a) = wrap32 a"
  using wrap32_add_left[of a 0] by simp

lemma wrap32_diff: "wrap32 (wrap32 a - wrap32 b) = wrap32 (a - b)"
proof (rule wrap32_cong)
  have "(wrap32 a - wrap32 b) mod 4294967296
      = (wrap32 a mod 4294967296 - wrap32 b mod 4294967296) mod 4294967296"
    by (simp only: mod_diff_eq)
  also have "\<dots> = (a - b) mod 4294967296"
    by (simp only: wrap32_mod mod_diff_eq)
  finally show "(wrap32 a - wrap32 b) mod 4294967296 = (a - b) mod 4294967296" .
qed

lemma count_loop_eq:
  "wrap32 s = s \<Longrightarrow>
   count_loop k xs s = wrap32 (s + int (length (filter (hasValue k) xs)))"
proof (induction xs arbitrary: s)
  case Nil
  then show ?case by simp
next
  case (Cons x xs)
  let ?i = "if hasValue k x then 1 else (0::int)"
  have "count_loop k (x # xs) s = count_loop k xs (wrap32 (s + ?i))" by simp
  also have "\<dots> = wrap32 (wrap32 (s + ?i) + int (length (filter (hasValue k) xs)))"
    by (rule Cons.IH) (rule wrap32_idem)
  also have "\<dots> = wrap32 (s + ?i + int (length (filter (hasValue k) xs)))"
    by (rule wrap32_add_left)
  also have "s + ?i + int (length (filter (hasValue k) xs))
           = s + int (length (filter (hasValue k) (x # xs)))" by simp
  finally show ?case .
qed

lemma count_loop_neg_eq:
  "wrap32 s = s \<Longrightarrow>
   count_loop_neg k xs s = wrap32 (s + int (length (filter (\<lambda>x. \<not> hasValue k x) xs)))"
proof (induction xs arbitrary: s)
  case Nil
  then show ?case by simp
next
  case (Cons x xs)
  let ?i = "if \<not> hasValue k x then 1 else (0::int)"
  let ?c = "int (length (filter (\<lambda>x. \<not> hasValue k x) xs))"
  have "count_loop_neg k (x # xs) s = count_loop_neg k xs (wrap32 (s + ?i))" by simp
  also have "\<dots> = wrap32 (wrap32 (s + ?i) + ?c)"
    by (rule Cons.IH) (rule wrap32_idem)
  also have "\<dots> = wrap32 (s + ?i + ?c)"
    by (rule wrap32_add_left)
  also have "s + ?i + ?c = s + int (length (filter (\<lambda>x. \<not> hasValue k x) (x # xs)))" by simp
  finally show ?case .
qed

lemma wrap32_0: "wrap32 0 = 0" by (simp add: wrap32_def)

lemma score_list_wrapped:
  "score_list k xs =
     max (wrap32 (int (length (filter (hasValue k) xs))))
         (wrap32 (int (length xs) - int (length (filter (hasValue k) xs))))"
  by (simp add: score_list_def count_loop_eq wrap32_0 wrap32_diff)

lemma score_list_neg_wrapped:
  "score_list_neg k xs =
     max (wrap32 (int (length (filter (\<lambda>x. \<not> hasValue k x) xs))))
         (wrap32 (int (length xs) - int (length (filter (\<lambda>x. \<not> hasValue k x) xs))))"
  by (simp add: score_list_neg_def count_loop_neg_eq wrap32_0 wrap32_diff)

text \<open>
  C9. For every key and block, counting the values for which \<open>hasValue\<close> is false
  instead of those for which it is true does not change the score.
\<close>

theorem score_symmetry: "score_list_neg k block = score_list k block"
proof -
  let ?c = "int (length (filter (hasValue k) block))"
  let ?d = "int (length (filter (\<lambda>x. \<not> hasValue k x) block))"
  have "length (filter (hasValue k) block) + length (filter (\<lambda>x. \<not> hasValue k x) block)
      = length block"
    by (rule sum_length_filter_compl)
  then have n: "int (length block) = ?c + ?d" by linarith
  have "score_list_neg k block = max (wrap32 ?d) (wrap32 (int (length block) - ?d))"
    by (rule score_list_neg_wrapped)
  also have "\<dots> = max (wrap32 ?d) (wrap32 ?c)" by (simp add: n)
  also have "\<dots> = max (wrap32 ?c) (wrap32 (int (length block) - ?c))"
    by (simp add: n max.commute)
  also have "\<dots> = score_list k block" by (rule score_list_wrapped[symmetric])
  finally show ?thesis .
qed

lemma score_list_in_range:
  assumes "int (length block) \<le> INT_MAX"
  shows "score_list k block =
     max (int (length (filter (hasValue k) block)))
         (int (length block) - int (length (filter (hasValue k) block)))"
proof -
  let ?c = "int (length (filter (hasValue k) block))"
  have c: "0 \<le> ?c" "?c \<le> int (length block)" by simp_all
  from assms c have b: "- 2147483648 \<le> ?c" "?c < 2147483648"
      "- 2147483648 \<le> int (length block) - ?c" "int (length block) - ?c < 2147483648"
    unfolding INT_MAX_def by linarith+
  have "wrap32 ?c = ?c" using b(1,2) by (rule wrap32_id)
  moreover have "wrap32 (int (length block) - ?c) = int (length block) - ?c"
    using b(3,4) by (rule wrap32_id)
  ultimately show ?thesis by (simp only: score_list_wrapped)
qed

text \<open>
  C3, amended. For every key and every block of \<open>n \<le> INT_MAX\<close> values, the score is
  \<open>max c (n - c)\<close>, where \<open>c\<close> is the number of block values that satisfy
  \<open>hasValue\<close> under the key; hence for a non-empty block the score lies between
  \<open>\<lceil>n/2\<rceil>\<close> and \<open>n\<close>, and the score is \<open>n\<close> exactly when the predicate or its
  negation holds for every element of the block.
\<close>

theorem score_list_bounds:
  assumes "int (length block) \<le> INT_MAX"
  shows "score_list k block =
           max (int (length (filter (hasValue k) block)))
               (int (length block) - int (length (filter (hasValue k) block)))
       \<and> (block \<noteq> [] \<longrightarrow> (int (length block) + 1) div 2 \<le> score_list k block
                          \<and> score_list k block \<le> int (length block))
       \<and> (score_list k block = int (length block) \<longleftrightarrow>
            (\<forall>x \<in> set block. hasValue k x) \<or> (\<forall>x \<in> set block. \<not> hasValue k x))"
proof -
  let ?c = "int (length (filter (hasValue k) block))"
  let ?n = "int (length block)"
  have s: "score_list k block = max ?c (?n - ?c)" using assms by (rule score_list_in_range)
  have c: "0 \<le> ?c" "?c \<le> ?n" by simp_all
  have all: "?c = ?n \<longleftrightarrow> (\<forall>x \<in> set block. hasValue k x)"
    using filter_id_conv[of "hasValue k" block] length_filter_le[of "hasValue k" block]
    by (metis length_filter_less of_nat_eq_iff order_less_irrefl filter_True)
  have none: "?c = 0 \<longleftrightarrow> (\<forall>x \<in> set block. \<not> hasValue k x)"
    by (simp add: filter_empty_conv)
  have "max ?c (?n - ?c) = ?n \<longleftrightarrow> ?c = ?n \<or> ?c = 0" using c by linarith
  with all none s have iff: "score_list k block = ?n \<longleftrightarrow>
      (\<forall>x \<in> set block. hasValue k x) \<or> (\<forall>x \<in> set block. \<not> hasValue k x)" by simp
  have "(?n + 1) div 2 \<le> max ?c (?n - ?c)" "max ?c (?n - ?c) \<le> ?n" using c by linarith+
  with s iff show ?thesis by simp
qed

text \<open>The membership of four small values under the key 0.\<close>

lemma hasValue_0_1: "\<not> hasValue 0 1"
  by code_simp

text \<open>
  C3 as stated fails on a block whose length does not fit in \<open>int\<close>: for \<open>2^31\<close> copies
  of the value 1, none a member under the key 0, the count is 0, \<open>(int)n\<close> is
  \<open>-2^31\<close>, and the score is 0 instead of \<open>n\<close>.
\<close>

theorem score_list_large_block_counterexample:
  "score_list 0 (replicate 2147483648 1) \<noteq>
     max (int (length (filter (hasValue 0) (replicate 2147483648 1))))
         (int (length (replicate 2147483648 1))
            - int (length (filter (hasValue 0) (replicate 2147483648 1))))"
proof -
  have f: "filter (hasValue 0) (replicate 2147483648 1) = []"
    by (simp add: hasValue_0_1)
  have "score_list 0 (replicate 2147483648 1) = max (wrap32 0) (wrap32 2147483648)"
    using score_list_wrapped[of 0 "replicate 2147483648 1"] by (simp only: f) simp
  also have "\<dots> = 0" by (simp add: wrap32_def)
  finally show ?thesis by (simp add: f)
qed

lemma hasValue_0_block: "hasValue 0 0 \<and> \<not> hasValue 0 1 \<and> \<not> hasValue 0 2 \<and> hasValue 0 3"
  by code_simp

theorem score_list_bounds_witness:
  "int (length [0, 1, 2, 3 :: u16]) \<le> INT_MAX
   \<and> score_list 0 [0, 1, 2, 3] = 2
   \<and> (int (length [0, 1, 2, 3 :: u16]) + 1) div 2 \<le> score_list 0 [0, 1, 2, 3]
   \<and> score_list 0 [0, 1, 2, 3] \<le> int (length [0, 1, 2, 3 :: u16])
   \<and> score_list 0 [0, 1, 2, 3] \<noteq> int (length [0, 1, 2, 3 :: u16])"
proof -
  have h: "int (length [0, 1, 2, 3 :: u16]) \<le> INT_MAX" by (simp add: INT_MAX_def)
  from score_list_bounds[OF h, of 0] have "score_list 0 [0, 1, 2, 3] = 2"
    by (simp add: hasValue_0_block)
  with h show ?thesis by simp
qed

section \<open>The restart loop\<close>

lemma restart_loop_exit: "\<not> r < restarts cfg \<Longrightarrow> restart_loop g block cfg r rng res = res"
  by (simp add: restart_loop.simps)

text \<open>
  C4, amended. When \<open>restarts \<le> 0\<close> the search runs no restart and returns the default
  result, \<open>bestID = 0\<close> and \<open>bestScore = -1\<close>; it signals no error.
\<close>

theorem search_without_restarts:
  "restarts cfg \<le> 0 \<Longrightarrow>
   searchBestListID g block cfg rngSeed = \<lparr>bestID = 0, bestScore = - 1\<rparr>"
  by (simp add: searchBestListID_def restart_loop_exit default_result_def)

theorem search_without_restarts_witness:
  "restarts \<lparr>restarts = - 1, hillIters = 6, tryAllBits = True\<rparr> \<le> 0
   \<and> searchBestListID counter_rng [0, 1, 2, 3]
        \<lparr>restarts = - 1, hillIters = 6, tryAllBits = True\<rparr> 0xC0FFEE123456789
     = \<lparr>bestID = 0, bestScore = - 1\<rparr>"
proof -
  have h: "restarts \<lparr>restarts = - 1, hillIters = 6, tryAllBits = True\<rparr> \<le> 0" by simp
  from h search_without_restarts[OF h, of counter_rng "[0, 1, 2, 3]" "0xC0FFEE123456789"]
  show ?thesis by simp
qed

text \<open>
  C4 as stated fails: with \<open>restarts = 0\<close> the search returns the default key and score
  as an ordinary result.
\<close>

theorem search_zero_restarts_counterexample:
  "searchBestListID counter_rng [0, 1, 2, 3]
     \<lparr>restarts = 0, hillIters = 6, tryAllBits = True\<rparr> 0xC0FFEE123456789
   = \<lparr>bestID = 0, bestScore = - 1\<rparr>"
  by (simp add: searchBestListID_def restart_loop.simps default_result_def)

lemma restart_exec_det:
  "restart_exec g block cfg st out1 \<Longrightarrow> restart_exec g block cfg st out2 \<Longrightarrow> out1 = out2"
proof (induction arbitrary: out2 rule: restart_exec.induct)
  case (exec_done r rng res)
  from exec_done.prems exec_done.hyps show ?case
    by (cases rule: restart_exec.cases) simp_all
next
  case (exec_step r rng start rng' res out)
  from exec_step.prems show ?case
  proof (cases rule: restart_exec.cases)
    case exec_done
    with exec_step.hyps(1) show ?thesis by simp
  next
    case (exec_step start2 rng2)
    with exec_step.hyps(2) have "start2 = start" "rng2 = rng'" by simp_all
    with exec_step(3) show ?thesis by (simp add: exec_step.IH)
  qed
qed

lemma restart_exec_loop:
  "restart_exec g block cfg (r, rng, res) (restart_loop g block cfg r rng res)"
proof (induction g block cfg r rng res rule: restart_loop.induct)
  case (1 g block cfg r rng res)
  show ?case
  proof (cases "r < restarts cfg")
    case False
    then show ?thesis by (simp add: restart_loop_exit restart_exec.exec_done)
  next
    case True
    obtain start rng' where d: "draw32 g rng = (start, rng')" by (cases "draw32 g rng")
    from "1.IH"[OF True d[symmetric]]
    have "restart_exec g block cfg (r + 1, rng', track_best res (hillclimb block cfg start))
            (restart_loop g block cfg (r + 1) rng' (track_best res (hillclimb block cfg start)))" .
    from restart_exec.exec_step[OF True d this] show ?thesis
      by (subst restart_loop.simps) (simp add: True d)
  qed
qed

lemma search_run_function: "search_run g block cfg rngSeed (searchBestListID g block cfg rngSeed)"
  by (simp add: search_run_def searchBestListID_def restart_exec_loop)

text \<open>
  C5. The search is deterministic: two runs on the same block, configuration and seed
  return the same result, key and score, which is the value of \<open>searchBestListID\<close>.
\<close>

theorem search_deterministic:
  "search_run g block cfg rngSeed r1 \<Longrightarrow> search_run g block cfg rngSeed r2 \<Longrightarrow>
   r1 = r2 \<and> r1 = searchBestListID g block cfg rngSeed"
proof -
  assume r1: "search_run g block cfg rngSeed r1" and r2: "search_run g block cfg rngSeed r2"
  have f: "search_run g block cfg rngSeed (searchBestListID g block cfg rngSeed)"
    by (rule search_run_function)
  from r1 r2 have "r1 = r2" unfolding search_run_def by (rule restart_exec_det)
  moreover from r1 f have "r1 = searchBestListID g block cfg rngSeed"
    unfolding search_run_def by (rule restart_exec_det)
  ultimately show ?thesis by simp
qed

lemma score_key_block: "score_list 0x23456789 [0, 1, 2, 3] = 3"
  by code_simp

lemma pass_loop_exit: "\<not> pass < iters \<Longrightarrow> pass_loop block iters pass st = st"
  by (cases st) (simp add: pass_loop.simps)

theorem search_deterministic_witness:
  "search_run counter_rng [0, 1, 2, 3] \<lparr>restarts = 1, hillIters = 0, tryAllBits = True\<rparr>
     0xC0FFEE123456789
     (searchBestListID counter_rng [0, 1, 2, 3]
        \<lparr>restarts = 1, hillIters = 0, tryAllBits = True\<rparr> 0xC0FFEE123456789)
   \<and> search_run counter_rng [0, 1, 2, 3] \<lparr>restarts = 1, hillIters = 0, tryAllBits = True\<rparr>
     0xC0FFEE123456789 \<lparr>bestID = 0x23456789, bestScore = 3\<rparr>
   \<and> searchBestListID counter_rng [0, 1, 2, 3]
        \<lparr>restarts = 1, hillIters = 0, tryAllBits = True\<rparr> 0xC0FFEE123456789
     = \<lparr>bestID = 0x23456789, bestScore = 3\<rparr>"
proof -
  let ?cfg = "\<lparr>restarts = 1, hillIters = 0, tryAllBits = True\<rparr>"
  let ?B = "[0, 1, 2, 3 :: u16]"
  have tb: "track_best default_result (hillclimb ?B ?cfg 0x23456789)
              = \<lparr>bestID = 0x23456789, bestScore = 3\<rparr>"
    by (simp add: track_best_def default_result_def hillclimb_def pass_loop_exit score_key_block)
  have "restart_exec counter_rng ?B ?cfg
          (0 + 1, 0xC0FFEE123456789 + 1, track_best default_result (hillclimb ?B ?cfg 0x23456789))
          (track_best default_result (hillclimb ?B ?cfg 0x23456789))"
    by (rule restart_exec.exec_done) simp
  then have "restart_exec counter_rng ?B ?cfg (0, 0xC0FFEE123456789, default_result)
          (track_best default_result (hillclimb ?B ?cfg 0x23456789))"
    by (rule restart_exec.exec_step[rotated 2]) (simp_all add: counter_rng_def)
  then have run2: "search_run counter_rng ?B ?cfg 0xC0FFEE123456789
                     \<lparr>bestID = 0x23456789, bestScore = 3\<rparr>"
    by (simp add: search_run_def tb counter_rng_def)
  have run1: "search_run counter_rng ?B ?cfg 0xC0FFEE123456789
                (searchBestListID counter_rng ?B ?cfg 0xC0FFEE123456789)"
    by (rule search_run_function)
  from run1 run2 search_deterministic[OF run1 run2] show ?thesis by simp
qed

section \<open>The hillclimb\<close>

lemma bit_loop_exit: "\<not> b < 32 \<Longrightarrow> bit_loop block b st = st"
  by (cases st) (simp add: bit_loop.simps)

lemma bit_loop_step:
  "b < 32 \<Longrightarrow> bit_loop block b (cur, curScore, improved) =
     (if score_list (cur XOR push_bit b 1) block > curScore
      then bit_loop block (b + 1) (cur XOR push_bit b 1, score_list (cur XOR push_bit b 1) block, True)
      else bit_loop block (b + 1) (cur, curScore, improved))"
  by (subst bit_loop.simps) (simp add: Let_def)

lemma bit_loop_mono: "curScore \<le> fst (snd (bit_loop block b (cur, curScore, improved)))"
proof (induction block b "(cur, curScore, improved)" arbitrary: cur curScore improved
       rule: bit_loop.induct)
  case (1 block b cur curScore improved)
  show ?case
  proof (cases "b < 32")
    case False
    then show ?thesis by (simp add: bit_loop_exit)
  next
    case True
    let ?cand = "cur XOR push_bit b 1"
    let ?sc = "score_list ?cand block"
    show ?thesis
    proof (cases "?sc > curScore")
      case better: True
      from "1.hyps"(1)[OF True refl refl better]
      have "?sc \<le> fst (snd (bit_loop block (b + 1) (?cand, ?sc, True)))" .
      with better have "curScore \<le> fst (snd (bit_loop block (b + 1) (?cand, ?sc, True)))"
        by linarith
      with better show ?thesis by (simp add: bit_loop_step True)
    next
      case worse: False
      from "1.hyps"(2)[OF True refl refl worse] worse
      show ?thesis by (simp add: bit_loop_step True)
    qed
  qed
qed


lemma pass_loop_step:
  "pass < iters \<Longrightarrow> pass_loop block iters pass (cur, curScore) =
     (let st = bit_loop block 0 (cur, curScore, False)
      in if \<not> snd (snd st) then (fst st, fst (snd st))
         else pass_loop block iters (pass + 1) (fst st, fst (snd st)))"
  by (subst pass_loop.simps) (simp add: Let_def split: prod.splits)

lemma pass_loop_mono: "curScore \<le> snd (pass_loop block iters pass (cur, curScore))"
proof (induction block iters pass "(cur, curScore)" arbitrary: cur curScore
       rule: pass_loop.induct)
  case (1 block iters pass cur curScore)
  show ?case
  proof (cases "pass < iters")
    case False
    then show ?thesis by (simp add: pass_loop_exit)
  next
    case True
    obtain c s i where st: "bit_loop block 0 (cur, curScore, False) = (c, s, i)"
      by (cases "bit_loop block 0 (cur, curScore, False)")
    have m: "curScore \<le> s" using bit_loop_mono[of curScore block 0 cur False] by (simp add: st)
    show ?thesis
    proof (cases i)
      case False
      with m show ?thesis by (simp add: pass_loop_step True st)
    next
      case i: True
      from "1.hyps"[OF True st[symmetric] refl] i
      have "s \<le> snd (pass_loop block iters (pass + 1) (c, s))" by simp
      with m i show ?thesis by (simp add: pass_loop_step True st)
    qed
  qed
qed



text \<open>
  C7. Within one hillclimb run the current score never decreases: the score at the end of
  a pass is at least the score at its start, from whatever pass the run is looked at, and
  the score \<open>hillclimb\<close> returns is at least the score of the starting key.
\<close>

theorem hillclimb_never_regresses:
  "curScore \<le> fst (snd (bit_loop block 0 (cur, curScore, improved)))
   \<and> curScore \<le> snd (pass_loop block iters pass (cur, curScore))
   \<and> score_list startID block \<le> snd (hillclimb block cfg startID)"
  by (simp add: bit_loop_mono pass_loop_mono hillclimb_def)

section \<open>The restart loop as a fold\<close>


























section \<open>The hillclimb is the one the specification describes\<close>

lemma spec_try_flip_mono: "snd st \<le> snd (spec_try_flip block st b)"
  by (simp add: spec_try_flip_def Let_def)

lemma spec_fold_mono: "snd st \<le> snd (foldl (spec_try_flip block) st bs)"
proof (induction bs arbitrary: st)
  case Nil
  then show ?case by simp
next
  case (Cons b bs)
  have "snd st \<le> snd (spec_try_flip block st b)" by (rule spec_try_flip_mono)
  also have "\<dots> \<le> snd (foldl (spec_try_flip block) (spec_try_flip block st b) bs)"
    by (rule Cons.IH)
  finally show ?case by simp
qed

lemma spec_try_flip_eq:
  "spec_try_flip block (cur, curScore) b =
     (if score_list (cur XOR push_bit b 1) block > curScore
      then (cur XOR push_bit b 1, score_list (cur XOR push_bit b 1) block)
      else (cur, curScore))"
  by (simp add: spec_try_flip_def Let_def flip_bit_eq_xor)

lemma bit_loop_spec:
  "b \<le> 32 \<Longrightarrow>
   bit_loop block b (cur, curScore, improved) =
     (fst (foldl (spec_try_flip block) (cur, curScore) [b..<32]),
      snd (foldl (spec_try_flip block) (cur, curScore) [b..<32]),
      improved \<or> curScore < snd (foldl (spec_try_flip block) (cur, curScore) [b..<32]))"
proof (induction block b "(cur, curScore, improved)" arbitrary: cur curScore improved
       rule: bit_loop.induct)
  case (1 block b cur curScore improved)
  show ?case
  proof (cases "b < 32")
    case False
    with "1.prems" have "b = 32" by simp
    then show ?thesis by (simp add: bit_loop_exit)
  next
    case True
    let ?cand = "cur XOR push_bit b 1"
    let ?sc = "score_list ?cand block"
    from True have up: "[b..<32] = b # [b + 1..<32]" by (simp add: upt_conv_Cons)
    from True have le: "b + 1 \<le> 32" by simp
    show ?thesis
    proof (cases "?sc > curScore")
      case better: True
      have step: "spec_try_flip block (cur, curScore) b = (?cand, ?sc)"
        using better by (simp only: spec_try_flip_eq if_True)
      have "?sc \<le> snd (foldl (spec_try_flip block) (?cand, ?sc) [b + 1..<32])"
        using spec_fold_mono[of "(?cand, ?sc)" block "[b + 1..<32]"] by simp
      with better have gt: "curScore < snd (foldl (spec_try_flip block) (?cand, ?sc) [b + 1..<32])"
        by linarith
      have "bit_loop block b (cur, curScore, improved)
              = bit_loop block (b + 1) (?cand, ?sc, True)"
        using better by (simp only: bit_loop_step[OF True] if_True)
      also note "1.hyps"(1)[OF True refl refl better le]
      finally show ?thesis using gt by (simp only: up foldl_Cons step) simp
    next
      case worse: False
      have step: "spec_try_flip block (cur, curScore) b = (cur, curScore)"
        using worse by (simp only: spec_try_flip_eq if_False)
      have "bit_loop block b (cur, curScore, improved)
              = bit_loop block (b + 1) (cur, curScore, improved)"
        using worse by (simp only: bit_loop_step[OF True] if_False)
      also note "1.hyps"(2)[OF True refl refl worse le]
      finally show ?thesis by (simp only: up foldl_Cons step)
    qed
  qed
qed

lemma bit_loop_pass:
  "bit_loop block 0 (cur, curScore, False) =
     (fst (spec_pass block (cur, curScore)), snd (spec_pass block (cur, curScore)),
      curScore < snd (spec_pass block (cur, curScore)))"
  using bit_loop_spec[of 0 block cur curScore False] by (simp add: spec_pass_def)

lemma pass_loop_spec:
  "pass_loop block iters pass (cur, curScore)
     = spec_passes block (nat (iters - pass)) (cur, curScore)"
proof (induction block iters pass "(cur, curScore)" arbitrary: cur curScore
       rule: pass_loop.induct)
  case (1 block iters pass cur curScore)
  show ?case
  proof (cases "pass < iters")
    case False
    then show ?thesis by (simp add: pass_loop_exit)
  next
    case True
    let ?st = "spec_pass block (cur, curScore)"
    from True have n: "nat (iters - pass) = Suc (nat (iters - (pass + 1)))" by simp
    show ?thesis
    proof (cases "curScore < snd ?st")
      case False
      then show ?thesis
        by (simp add: pass_loop_step[OF True] bit_loop_pass n Let_def)
    next
      case improved: True
      from "1.hyps"[OF True bit_loop_pass[symmetric] refl] improved
      have "pass_loop block iters (pass + 1) (fst ?st, snd ?st)
              = spec_passes block (nat (iters - (pass + 1))) (fst ?st, snd ?st)" by simp
      with improved show ?thesis
        by (simp add: pass_loop_step[OF True] bit_loop_pass n Let_def)
    qed
  qed
qed

text \<open>
  C6. The hillclimb of the source is the one described: up to \<open>hillIters\<close> passes, each
  pass scanning the bit positions 0..31 in order on the current key (earlier accepted
  flips included), adopting a flipped key exactly when its score strictly exceeds the
  current score, and stopping after a pass in which no flip improved the score.
\<close>

theorem hillclimb_refines_spec:
  "hillclimb block cfg startID = spec_hillclimb block cfg startID"
  by (simp add: hillclimb_def spec_hillclimb_def pass_loop_spec)

end
